theory Spec2Isabelle
  imports Main "HOL-Library.Word" "HOL-Library.AList" "HOL-Library.Sublist"
begin

unbundle bit_operations_syntax

section \<open>Bytes, Python integers and errors\<close>

text \<open>
  A Python \<open>bytes\<close> value is a list of 8-bit words; indexing it yields a Python integer
  in the range 0..255, read here with \<open>uint\<close>. Python integers are unbounded and are
  modelled by \<open>int\<close>; lengths, object numbers and byte offsets come from \<open>len\<close> and
  \<open>range\<close> and are natural numbers. The exceptions that the two functions of
  \<^verbatim>\<open>combine_pdf.py\<close> can raise are values: the explicit
  \<^verbatim>\<open>raise ValueError("Could not parse JPEG dimensions")\<close>, the \<open>ValueError\<close> of
  \<^verbatim>\<open>max\<close> on an empty dictionary, and the \<open>IndexError\<close> of an out-of-range subscript.
\<close>

type_synonym byte = "8 word"

datatype error = ValueError string | IndexError

text \<open>
  \<^verbatim>\<open>data[i]\<close> on a bytes object: a negative index counts from the end, and an index
  outside the buffer raises \<open>IndexError\<close>.
\<close>

definition byte_at :: "byte list \<Rightarrow> int \<Rightarrow> error + byte" where
  "byte_at data i =
     (let n = int (length data); j = (if i < 0 then n + i else i)
      in if 0 \<le> j \<and> j < n then Inr (data ! nat j) else Inl IndexError)"

text \<open>\<^verbatim>\<open>(hi << 8) | lo\<close> on the Python integers of two bytes.\<close>

definition shl8_or :: "byte \<Rightarrow> byte \<Rightarrow> int" where
  "shl8_or hi lo = push_bit 8 (uint hi) OR uint lo"

text \<open>\<^verbatim>\<open>marker in (0xC0, 0xC1, 0xC2)\<close>\<close>

definition is_sof :: "byte \<Rightarrow> bool" where
  "is_sof marker = (marker = 0xC0 \<or> marker = 0xC1 \<or> marker = 0xC2)"

definition parse_msg :: string where
  "parse_msg = ''Could not parse JPEG dimensions''"

section \<open>The image header parser: \<open>_jpeg_dimensions\<close>\<close>

text \<open>
  The \<^verbatim>\<open>while i < len(data) - 8\<close> loop of \<^verbatim>\<open>_jpeg_dimensions\<close>, from cursor \<open>i\<close>.
  Every subscript goes through \<open>byte_at\<close>, so an out-of-range read would surface as
  \<open>Inl IndexError\<close>. A \<^verbatim>\<open>break\<close> and the failing loop guard both reach the
  \<^verbatim>\<open>raise ValueError\<close> after the loop. The height is read before the width, and the
  pair returned is \<open>(w, h)\<close>.
\<close>

function jpeg_scan :: "byte list \<Rightarrow> int \<Rightarrow> error + (int \<times> int)" where
  "jpeg_scan data i =
     (if i < int (length data) - 8 then
        (case byte_at data i of
           Inl e \<Rightarrow> Inl e
         | Inr b \<Rightarrow>
             if b \<noteq> 0xFF then Inl (ValueError parse_msg)
             else
               (case byte_at data (i + 1) of
                  Inl e \<Rightarrow> Inl e
                | Inr marker \<Rightarrow>
                    if is_sof marker then
                      (case byte_at data (i + 5) of Inl e \<Rightarrow> Inl e | Inr h1 \<Rightarrow>
                      (case byte_at data (i + 6) of Inl e \<Rightarrow> Inl e | Inr h0 \<Rightarrow>
                      (case byte_at data (i + 7) of Inl e \<Rightarrow> Inl e | Inr w1 \<Rightarrow>
                      (case byte_at data (i + 8) of Inl e \<Rightarrow> Inl e | Inr w0 \<Rightarrow>
                         Inr (shl8_or w1 w0, shl8_or h1 h0)))))
                    else
                      (case byte_at data (i + 2) of Inl e \<Rightarrow> Inl e | Inr s1 \<Rightarrow>
                      (case byte_at data (i + 3) of Inl e \<Rightarrow> Inl e | Inr s0 \<Rightarrow>
                         jpeg_scan data (i + (2 + shl8_or s1 s0))))))
      else Inl (ValueError parse_msg))"
  by pat_completeness auto
termination
proof (relation "measure (\<lambda>(data, i). nat (int (length data) - 8 - i))", goal_cases)
  case 1
  show ?case by simp
next
  case 2
  have advances: "- shl8_or hi lo < 2" for hi lo
  proof -
    have "0 \<le> shl8_or hi lo" by (simp add: shl8_or_def)
    then show ?thesis by linarith
  qed
  from 2 show ?case by (auto simp: advances)
qed

declare jpeg_scan.simps [simp del]

text \<open>\<^verbatim>\<open>i = 2  # skip FF D8\<close>, then the loop.\<close>

definition jpeg_dimensions :: "byte list \<Rightarrow> error + (int \<times> int)" where
  "jpeg_dimensions data = jpeg_scan data 2"

text \<open>
  The cursor at which the loop of \<^verbatim>\<open>_jpeg_dimensions\<close> stops when started at \<open>i\<close>:
  it advances over a segment exactly when the loop guard holds, the byte at the cursor
  is \<open>0xFF\<close> and the marker code is not a start-of-frame code, as the loop does.
\<close>

function stop_at :: "byte list \<Rightarrow> int \<Rightarrow> int" where
  "stop_at data i =
     (if i < int (length data) - 8 \<and> data ! nat i = 0xFF \<and> \<not> is_sof (data ! nat (i + 1))
      then stop_at data (i + (2 + shl8_or (data ! nat (i + 2)) (data ! nat (i + 3))))
      else i)"
  by pat_completeness auto
termination
proof (relation "measure (\<lambda>(data, i). nat (int (length data) - 8 - i))", goal_cases)
  case 1
  show ?case by simp
next
  case 2
  have advances: "- shl8_or hi lo < 2" for hi lo
  proof -
    have "0 \<le> shl8_or hi lo" by (simp add: shl8_or_def)
    then show ?thesis by linarith
  qed
  from 2 show ?case by (auto simp: advances)
qed

declare stop_at.simps [simp del]

section \<open>Text and bytes of the document assembler\<close>

text \<open>
  \<^verbatim>\<open>str.encode()\<close> on the text the assembler formats: every character is ASCII (literal
  text, decimal digits and a minus sign), so UTF-8 gives one byte per character.
\<close>

definition encode :: "string \<Rightarrow> byte list" where
  "encode s = map of_char s"

text \<open>The decimal text of a Python integer inside an f-string, \<^verbatim>\<open>f"{n}"\<close>.\<close>

fun str_nat :: "nat \<Rightarrow> string" where
  "str_nat n =
     (if n < 10 then [char_of (48 + n)]
      else str_nat (n div 10) @ [char_of (48 + n mod 10)])"

declare str_nat.simps [simp del]

definition str_int :: "int \<Rightarrow> string" where
  "str_int k = (if k < 0 then CHR ''-'' # str_nat (nat (- k)) else str_nat (nat k))"

text \<open>
  \<^verbatim>\<open>f"{off:010d}"\<close> for an offset, which is never negative: zero-padded on the left to
  ten characters, and longer than ten when the number has more digits.
\<close>

definition fmt_010d :: "nat \<Rightarrow> string" where
  "fmt_010d off = replicate (10 - length (str_nat off)) CHR ''0'' @ str_nat off"

text \<open>\<^verbatim>\<open>sep.join(parts)\<close>\<close>

fun join :: "string \<Rightarrow> string list \<Rightarrow> string" where
  "join sep [] = []"
| "join sep [x] = x"
| "join sep (x # y # ys) = x @ sep @ join sep (y # ys)"

text \<open>\<^verbatim>\<open>xs[i]\<close> on a list with an index that \<^verbatim>\<open>enumerate\<close> produced (never negative).\<close>

definition index :: "'a list \<Rightarrow> nat \<Rightarrow> error + 'a" where
  "index xs i = (if i < length xs then Inr (xs ! i) else Inl IndexError)"

section \<open>The document assembler: \<open>_build_jpeg_pdf\<close>\<close>

text \<open>
  A page is the tuple \<^verbatim>\<open>(jpeg_bytes, width, height)\<close>. The two locals that the closure
  \<^verbatim>\<open>add_obj\<close> mutates, the output buffer \<^verbatim>\<open>buf\<close> and the dictionary \<^verbatim>\<open>offsets\<close>,
  form the state that is passed along. The dictionary is an association list in
  insertion order; assigning to a key that is present replaces its value in place.
\<close>

type_synonym page = "byte list \<times> int \<times> int"

record pdf_state =
  buf :: "byte list"
  offsets :: "(nat \<times> nat) list"

definition add_obj :: "nat \<Rightarrow> byte list \<Rightarrow> pdf_state \<Rightarrow> pdf_state" where
  "add_obj num data st =
     st\<lparr>offsets := AList.update num (length (buf st)) (offsets st),
        buf := buf st @ encode (str_nat num @ '' 0 obj\<newline>'') @ data @ encode ''\<newline>endobj\<newline>''\<rparr>"

definition catalog_num :: nat where
  "catalog_num = 1"

definition pages_num :: nat where
  "pages_num = 2"

text \<open>\<^verbatim>\<open>b"%PDF-1.4\n%\xe2\xe3\xcf\xd3\n"\<close>\<close>

definition pdf_header :: "byte list" where
  "pdf_header = encode ''%PDF-1.4\<newline>%'' @ [0xE2, 0xE3, 0xCF, 0xD3] @ encode ''\<newline>''"

text \<open>The body of the catalog object.\<close>

definition catalog_dict :: "byte list" where
  "catalog_dict = encode (''<<\<newline>/Type /Catalog\<newline>/Pages '' @ str_nat pages_num @ '' 0 R\<newline>>>'')"

text \<open>The body of the page-tree object, for the list \<^verbatim>\<open>page_nums\<close> and the count \<open>n\<close>.\<close>

definition pages_dict :: "nat list \<Rightarrow> nat \<Rightarrow> byte list" where
  "pages_dict page_nums n =
     (let kids = join '' '' (map (\<lambda>pn. str_nat pn @ '' 0 R'') page_nums)
      in encode (''<<\<newline>/Type /Pages\<newline>/Kids ['' @ kids @ '']\<newline>/Count '' @ str_nat n @ ''\<newline>>>''))"

text \<open>\<^verbatim>\<open>img_hdr + jpeg + b"\nendstream"\<close>: the body of a page's image object.\<close>

definition img_hdr :: "byte list \<Rightarrow> int \<Rightarrow> int \<Rightarrow> byte list" where
  "img_hdr jpeg w h =
     encode (''<<\<newline>/Type /XObject\<newline>/Subtype /Image\<newline>'' @
             ''/Width '' @ str_int w @ ''\<newline>/Height '' @ str_int h @ ''\<newline>'' @
             ''/ColorSpace /DeviceRGB\<newline>/BitsPerComponent 8\<newline>'' @
             ''/Filter /DCTDecode\<newline>/Length '' @ str_nat (length jpeg) @ ''\<newline>>>\<newline>'' @
             ''stream\<newline>'')"

definition image_object :: "byte list \<Rightarrow> int \<Rightarrow> int \<Rightarrow> byte list" where
  "image_object jpeg w h = img_hdr jpeg w h @ jpeg @ encode ''\<newline>endstream''"

text \<open>\<^verbatim>\<open>cs_hdr + content + b"\nendstream"\<close>: the body of a page's content stream object.\<close>

definition content :: "int \<Rightarrow> int \<Rightarrow> byte list" where
  "content w h = encode (''q '' @ str_int w @ '' 0 0 '' @ str_int h @ '' 0 0 cm /Im Do Q'')"

definition cs_hdr :: "byte list \<Rightarrow> byte list" where
  "cs_hdr c = encode (''<<\<newline>/Length '' @ str_nat (length c) @ ''\<newline>>>\<newline>stream\<newline>'')"

definition content_object :: "int \<Rightarrow> int \<Rightarrow> byte list" where
  "content_object w h = cs_hdr (content w h) @ content w h @ encode ''\<newline>endstream''"

text \<open>The body of a page dictionary.\<close>

definition page_dict :: "nat \<Rightarrow> nat \<Rightarrow> int \<Rightarrow> int \<Rightarrow> byte list" where
  "page_dict img_num content_num w h =
     encode (''<<\<newline>/Type /Page\<newline>/Parent '' @ str_nat pages_num @ '' 0 R\<newline>'' @
             ''/MediaBox [0 0 '' @ str_int w @ '' '' @ str_int h @ '']\<newline>'' @
             ''/Resources <<\<newline>/XObject << /Im '' @ str_nat img_num @ '' 0 R >>\<newline>>>\<newline>'' @
             ''/Contents '' @ str_nat content_num @ '' 0 R\<newline>>>'')"

text \<open>
  One turn of \<^verbatim>\<open>for i, (jpeg, w, h) in enumerate(pages)\<close>. The page dictionary's
  text reads \<^verbatim>\<open>img_nums[i]\<close> and \<^verbatim>\<open>content_nums[i]\<close> a second time; the lists have
  not changed, so the values of the first reads are used.
\<close>

definition emit_page ::
  "nat list \<Rightarrow> nat list \<Rightarrow> nat list \<Rightarrow> nat \<Rightarrow> page \<Rightarrow> pdf_state \<Rightarrow> error + pdf_state" where
  "emit_page img_nums content_nums page_nums i p st =
     (case p of (jpeg, w, h) \<Rightarrow>
        (case index img_nums i of
           Inl e \<Rightarrow> Inl e
         | Inr img_num \<Rightarrow>
             let st1 = add_obj img_num (image_object jpeg w h) st in
             (case index content_nums i of
                Inl e \<Rightarrow> Inl e
              | Inr content_num \<Rightarrow>
                  let st2 = add_obj content_num (content_object w h) st1 in
                  (case index page_nums i of
                     Inl e \<Rightarrow> Inl e
                   | Inr page_num \<Rightarrow>
                       Inr (add_obj page_num (page_dict img_num content_num w h) st2)))))"

fun emit_pages ::
  "nat list \<Rightarrow> nat list \<Rightarrow> nat list \<Rightarrow> nat \<Rightarrow> page list \<Rightarrow> pdf_state \<Rightarrow> error + pdf_state" where
  "emit_pages img_nums content_nums page_nums i [] st = Inr st"
| "emit_pages img_nums content_nums page_nums i (p # ps) st =
     (case emit_page img_nums content_nums page_nums i p st of
        Inl e \<Rightarrow> Inl e
      | Inr st' \<Rightarrow> emit_pages img_nums content_nums page_nums (Suc i) ps st')"

text \<open>
  The first part of \<^verbatim>\<open>_build_jpeg_pdf\<close>, up to the end of the page loop: the header,
  the catalog, the page tree and three objects per page.
\<close>

definition build_objects :: "page list \<Rightarrow> error + pdf_state" where
  "build_objects pages =
     (let n = length pages;
          img_nums = map (\<lambda>i. 3 + 3 * i) [0..<n];
          content_nums = map (\<lambda>i. 4 + 3 * i) [0..<n];
          page_nums = map (\<lambda>i. 5 + 3 * i) [0..<n];
          st0 = \<lparr>buf = pdf_header, offsets = []\<rparr>;
          st1 = add_obj catalog_num catalog_dict st0;
          st2 = add_obj pages_num (pages_dict page_nums n) st1
      in emit_pages img_nums content_nums page_nums 0 pages st2)"

text \<open>\<^verbatim>\<open>max(offsets)\<close>: the largest key, and \<open>ValueError\<close> on an empty dictionary.\<close>

definition max_key :: "(nat \<times> nat) list \<Rightarrow> error + nat" where
  "max_key al =
     (case map fst al of
        [] \<Rightarrow> Inl (ValueError ''max() arg is an empty sequence'')
      | k # ks \<Rightarrow> Inr (fold max ks k))"

text \<open>
  The lines that \<^verbatim>\<open>for num in range(1, max_num + 1)\<close> appends, one for each number,
  with \<^verbatim>\<open>offsets.get(num, 0)\<close>.
\<close>

definition xref_lines :: "pdf_state \<Rightarrow> nat \<Rightarrow> byte list list" where
  "xref_lines st max_num =
     map (\<lambda>num. encode (fmt_010d (case map_of (offsets st) num of None \<Rightarrow> 0 | Some off \<Rightarrow> off)
                          @ '' 00000 n \<newline>''))
         [1..<max_num + 1]"

text \<open>The second part: the cross-reference table, the trailer and the pointer to the table.\<close>

definition finish :: "pdf_state \<Rightarrow> error + byte list" where
  "finish st =
     (let xref_offset = length (buf st) in
      case max_key (offsets st) of
        Inl e \<Rightarrow> Inl e
      | Inr max_num \<Rightarrow>
          Inr (buf st
               @ encode ''xref\<newline>''
               @ encode (''0 '' @ str_nat (max_num + 1) @ ''\<newline>'')
               @ encode ''0000000000 65535 f \<newline>''
               @ concat (xref_lines st max_num)
               @ encode ''trailer\<newline>''
               @ encode (''<<\<newline>/Size '' @ str_nat (max_num + 1) @ ''\<newline>/Root '' @ str_nat catalog_num @ '' 0 R\<newline>>>\<newline>'')
               @ encode ''startxref\<newline>''
               @ encode (str_nat xref_offset @ ''\<newline>'')
               @ encode ''%%EOF\<newline>''))"

definition build_jpeg_pdf :: "page list \<Rightarrow> error + byte list" where
  "build_jpeg_pdf pages =
     (case build_objects pages of Inl e \<Rightarrow> Inl e | Inr st \<Rightarrow> finish st)"

section \<open>Byte streams that the statements name\<close>

text \<open>
  The shape of a well-formed image stream, for the statements about the parser: a
  16-bit number as two bytes, most significant first; a marker segment, whose length
  field counts its own two bytes and the payload; and a start-of-frame segment, with
  the two bytes of its length field, the precision byte, the height and the width.
\<close>

definition be16_bytes :: "nat \<Rightarrow> byte list" where
  "be16_bytes n = [of_nat (n div 256), of_nat (n mod 256)]"

definition marker_segment :: "byte \<times> byte list \<Rightarrow> byte list" where
  "marker_segment s = (case s of (m, payload) \<Rightarrow> [0xFF, m] @ be16_bytes (length payload + 2) @ payload)"

definition sof_segment :: "byte \<Rightarrow> byte \<Rightarrow> byte \<Rightarrow> byte \<Rightarrow> nat \<Rightarrow> nat \<Rightarrow> byte list" where
  "sof_segment m l1 l0 precision h w = [0xFF, m, l1, l0, precision] @ be16_bytes h @ be16_bytes w"

text \<open>
  Three concrete streams: a start-of-frame segment cut one byte short, a complete one
  that declares 0 by 0 pixels, and a complete one that declares a width of 100 and a
  height of 50.
\<close>

definition truncated_sof :: "byte list" where
  "truncated_sof = [0xFF, 0xD8, 0xFF, 0xC0, 0x00, 0x11, 0x08, 0x00, 0x32, 0x00]"

definition zero_frame :: "byte list" where
  "zero_frame = [0xFF, 0xD8, 0xFF, 0xC0, 0x00, 0x11, 0x08, 0x00, 0x00, 0x00, 0x00]"

definition minimal_frame :: "byte list" where
  "minimal_frame = [0xFF, 0xD8, 0xFF, 0xC0, 0x00, 0x11, 0x08, 0x00, 0x32, 0x00, 0x64]"

section \<open>Objects in a buffer, and sample inputs of the assembler\<close>

text \<open>
  What \<^verbatim>\<open>add_obj\<close> appends for the object \<open>num\<close> with the body \<open>data\<close>: the line
  \<^verbatim>\<open>num 0 obj\<close>, the body, and \<^verbatim>\<open>endobj\<close> on a line of its own.
\<close>

definition object_bytes :: "nat \<Rightarrow> byte list \<Rightarrow> byte list" where
  "object_bytes num data = encode (str_nat num @ '' 0 obj\<newline>'') @ data @ encode ''\<newline>endobj\<newline>''"

text \<open>
  The table \<open>offs\<close> has an offset for the number \<open>num\<close>, and at that offset of the
  buffer \<open>b\<close> stands the object \<open>num\<close> with the body \<open>data\<close>.
\<close>

definition object_at :: "(nat \<times> nat) list \<Rightarrow> byte list \<Rightarrow> nat \<Rightarrow> byte list \<Rightarrow> bool" where
  "object_at offs b num data =
     (case map_of offs num of
        None \<Rightarrow> False
      | Some off \<Rightarrow> prefix (object_bytes num data) (drop off b))"

text \<open>
  The image, the content stream and the page dictionary of the page with index \<open>i\<close>
  stand in the buffer under the numbers \<open>3 + 3i\<close>, \<open>4 + 3i\<close> and \<open>5 + 3i\<close>.
\<close>

definition page_objects_at :: "(nat \<times> nat) list \<Rightarrow> byte list \<Rightarrow> nat \<Rightarrow> page \<Rightarrow> bool" where
  "page_objects_at offs b i p =
     (case p of (jpeg, w, h) \<Rightarrow>
        object_at offs b (3 + 3 * i) (image_object jpeg w h)
        \<and> object_at offs b (4 + 3 * i) (content_object w h)
        \<and> object_at offs b (5 + 3 * i) (page_dict (3 + 3 * i) (4 + 3 * i) w h))"

text \<open>
  Three pages of 10 by 10, 20 by 30 and 5 by 5 with short payloads, and the whole
  buffer that the assembler returns for no pages at all.
\<close>

definition three_pages :: "page list" where
  "three_pages = [([0x41, 0x42, 0x43], 10, 10), ([], 20, 30), ([0x42], 5, 5)]"


section \<open>The parser: what the scan returns\<close>

lemma shl8_or_nonneg: "0 \<le> shl8_or hi lo"
  by (simp add: shl8_or_def)

lemma shl8_or_eq: "shl8_or hi lo = 256 * uint hi + uint lo"
proof -
  have low: "take_bit 8 (uint lo) = uint lo"
    using uint_lt2p [of lo] by (simp add: take_bit_eq_mod)
  have "shl8_or hi lo = concat_bit 8 (uint lo) (uint hi)"
    by (simp only: shl8_or_def concat_bit_def low or.commute)
  also have "\<dots> = uint lo + 256 * uint hi"
    by (simp only: concat_bit_eq low) (simp add: push_bit_eq_mult)
  finally show ?thesis by simp
qed

lemma byte_at_in: "0 \<le> i \<Longrightarrow> i < int (length data) \<Longrightarrow> byte_at data i = Inr (data ! nat i)"
  by (simp add: byte_at_def)

lemma uint_of_nat_byte: "k < 256 \<Longrightarrow> uint (of_nat k :: byte) = int k"
  by (simp add: uint_nat unat_of_nat)

lemma shl8_or_be16: "n < 65536 \<Longrightarrow> shl8_or (of_nat (n div 256)) (of_nat (n mod 256)) = int n"
proof -
  assume n: "n < 65536"
  then have "n div 256 < 256" by simp
  then show ?thesis
    by (simp add: shl8_or_eq uint_of_nat_byte zdiv_int zmod_int)
qed

lemma byte_at_append: "k < length ys \<Longrightarrow> byte_at (xs @ ys) (int (length xs) + int k) = Inr (ys ! k)"
  by (simp add: byte_at_def nat_add_distrib nth_append)

lemma scan_sof:
  assumes "is_sof m" and "h < 65536" and "w < 65536"
  shows "jpeg_scan (pre @ sof_segment m l1 l0 p h w @ rest) (int (length pre)) = Inr (int w, int h)"
proof -
  let ?ys = "sof_segment m l1 l0 p h w @ rest"
  have len: "9 \<le> length ?ys" by (simp add: sof_segment_def be16_bytes_def)
  have rd: "byte_at (pre @ ?ys) (int (length pre) + int k) = Inr (?ys ! k)" if "k < 9" for k
    using that len by (intro byte_at_append) simp
  have r0: "byte_at (pre @ ?ys) (int (length pre)) = Inr 0xFF"
    using rd [of 0] by (simp add: sof_segment_def)
  have r1: "byte_at (pre @ ?ys) (int (length pre) + 1) = Inr m"
    using rd [of 1] by (simp add: sof_segment_def)
  have r5: "byte_at (pre @ ?ys) (int (length pre) + 5) = Inr (of_nat (h div 256))"
    using rd [of 5] by (simp add: sof_segment_def be16_bytes_def)
  have r6: "byte_at (pre @ ?ys) (int (length pre) + 6) = Inr (of_nat (h mod 256))"
    using rd [of 6] by (simp add: sof_segment_def be16_bytes_def)
  have r7: "byte_at (pre @ ?ys) (int (length pre) + 7) = Inr (of_nat (w div 256))"
    using rd [of 7] by (simp add: sof_segment_def be16_bytes_def)
  have r8: "byte_at (pre @ ?ys) (int (length pre) + 8) = Inr (of_nat (w mod 256))"
    using rd [of 8] by (simp add: sof_segment_def be16_bytes_def)
  have guard: "int (length pre) < int (length (pre @ ?ys)) - 8"
    using len by simp
  show ?thesis
    using guard assms
    by (subst jpeg_scan.simps) (simp only: r0 r1 r5 r6 r7 r8 shl8_or_be16 if_True if_False sum.case simp_thms)
qed

lemma scan_skip:
  assumes "\<not> is_sof m" and "length payload + 2 < 65536" and "9 \<le> length after"
  shows "jpeg_scan (pre @ marker_segment (m, payload) @ after) (int (length pre))
       = jpeg_scan ((pre @ marker_segment (m, payload)) @ after)
                   (int (length (pre @ marker_segment (m, payload))))"
proof -
  let ?ys = "marker_segment (m, payload) @ after"
  have len: "13 \<le> length ?ys" using assms(3) by (simp add: marker_segment_def be16_bytes_def)
  have rd: "byte_at (pre @ ?ys) (int (length pre) + int k) = Inr (?ys ! k)" if "k < 4" for k
    using that len by (intro byte_at_append) simp
  have r0: "byte_at (pre @ ?ys) (int (length pre)) = Inr 0xFF"
    using rd [of 0] by (simp add: marker_segment_def)
  have r1: "byte_at (pre @ ?ys) (int (length pre) + 1) = Inr m"
    using rd [of 1] by (simp add: marker_segment_def)
  have r2: "byte_at (pre @ ?ys) (int (length pre) + 2) = Inr (of_nat ((length payload + 2) div 256))"
    using rd [of 2] by (simp add: marker_segment_def be16_bytes_def)
  have r3: "byte_at (pre @ ?ys) (int (length pre) + 3) = Inr (of_nat ((length payload + 2) mod 256))"
    using rd [of 3] by (simp add: marker_segment_def be16_bytes_def)
  have guard: "int (length pre) < int (length (pre @ ?ys)) - 8"
    using len by simp
  have adv: "int (length pre) + (2 + int (length payload + 2)) = int (length (pre @ marker_segment (m, payload)))"
    by (simp add: marker_segment_def be16_bytes_def)
  have "jpeg_scan (pre @ ?ys) (int (length pre))
      = jpeg_scan (pre @ ?ys) (int (length pre) + (2 + int (length payload + 2)))"
    using guard assms(1)
    by (subst jpeg_scan.simps) (simp only: r0 r1 r2 r3 shl8_or_be16 [OF assms(2)] if_True if_False sum.case simp_thms)
  then show ?thesis
    by (simp only: adv append_assoc)
qed

lemma scan_segments:
  assumes "\<forall>s \<in> set segs. \<not> is_sof (fst s) \<and> length (snd s) + 2 < 65536"
    and "is_sof m" and "h < 65536" and "w < 65536"
  shows "jpeg_scan (pre @ concat (map marker_segment segs) @ sof_segment m l1 l0 p h w @ rest)
           (int (length pre)) = Inr (int w, int h)"
  using assms(1)
proof (induction segs arbitrary: pre)
  case Nil
  show ?case using scan_sof [OF assms(2-4)] by simp
next
  case (Cons s segs)
  obtain c payload where s: "s = (c, payload)" by (cases s)
  let ?after = "concat (map marker_segment segs) @ sof_segment m l1 l0 p h w @ rest"
  have aft: "9 \<le> length ?after" by (simp add: sof_segment_def be16_bytes_def)
  have ok: "\<not> is_sof c" "length payload + 2 < 65536" using Cons.prems s by auto
  have "jpeg_scan (pre @ concat (map marker_segment (s # segs)) @ sof_segment m l1 l0 p h w @ rest) (int (length pre))
      = jpeg_scan (pre @ marker_segment (c, payload) @ ?after) (int (length pre))"
    by (simp add: s)
  also have "\<dots> = jpeg_scan ((pre @ marker_segment (c, payload)) @ ?after)
                      (int (length (pre @ marker_segment (c, payload))))"
    by (rule scan_skip [OF ok aft])
  also have "\<dots> = Inr (int w, int h)"
    using Cons.prems by (intro Cons.IH) simp
  finally show ?case .
qed

text \<open>
  C6: for a stream made of a 2-byte signature, any number of marker segments whose code
  is not a start-of-frame code and whose length field is right, and a start-of-frame
  segment (code \<open>0xC0\<close>, \<open>0xC1\<close> or \<open>0xC2\<close>) whose height and width stand after the length
  field and the precision byte, \<open>_jpeg_dimensions\<close> returns \<open>(width, height)\<close>, whatever
  bytes follow the segment.
\<close>

theorem jpeg_dimensions_well_formed:
  assumes "length sig = 2"
    and "\<forall>s \<in> set segs. \<not> is_sof (fst s) \<and> length (snd s) + 2 < 65536"
    and "is_sof m" and "h < 65536" and "w < 65536"
  shows "jpeg_dimensions (sig @ concat (map marker_segment segs) @ sof_segment m l1 l0 p h w @ rest)
           = Inr (int w, int h)"
  using scan_segments [OF assms(2-5), of sig l1 l0 p rest] assms(1)
  by (simp add: jpeg_dimensions_def)

text \<open>
  C6 on the minimal stream of 11 bytes, which gives \<open>(100, 50)\<close>, and on a stream
  with two marker segments before a progressive frame of 0x0304 by 0x0102.
\<close>

theorem jpeg_dimensions_well_formed_witness:
  "jpeg_dimensions minimal_frame = Inr (100, 50)
   \<and> jpeg_dimensions [0xFF, 0xD8, 0xFF, 0xE0, 0, 5, 1, 2, 3, 0xFF, 0xFE, 0, 2,
                       0xFF, 0xC2, 0, 0x11, 8, 0x01, 0x02, 0x03, 0x04, 9, 9] = Inr (0x0304, 0x0102)"
proof -
  have segs: "\<forall>s \<in> set [(0xE0, [1, 2, 3]), (0xFE :: byte, [] :: byte list)].
                \<not> is_sof (fst s) \<and> length (snd s) + 2 < 65536"
    by (simp add: is_sof_def)
  have "jpeg_dimensions ([0xFF, 0xD8] @ concat (map marker_segment [])
          @ sof_segment 0xC0 0 0x11 8 50 100 @ []) = Inr (int 100, int 50)"
    by (rule jpeg_dimensions_well_formed) (simp_all add: is_sof_def)
  moreover have "jpeg_dimensions ([0xFF, 0xD8]
          @ concat (map marker_segment [(0xE0, [1, 2, 3]), (0xFE, [])])
          @ sof_segment 0xC2 0 0x11 8 0x0102 0x0304 @ [9, 9]) = Inr (int 0x0304, int 0x0102)"
    by (rule jpeg_dimensions_well_formed [OF _ segs]) (simp_all add: is_sof_def)
  ultimately show ?thesis
    by (simp add: minimal_frame_def marker_segment_def sof_segment_def be16_bytes_def)
qed

lemma jpeg_scan_stop:
  "0 \<le> i \<Longrightarrow> jpeg_scan data i =
     (let j = stop_at data i in
      if j < int (length data) - 8 \<and> data ! nat j = 0xFF
      then Inr (shl8_or (data ! nat (j + 7)) (data ! nat (j + 8)),
                shl8_or (data ! nat (j + 5)) (data ! nat (j + 6)))
      else Inl (ValueError parse_msg))"
proof (induction data i rule: stop_at.induct)
  case (1 data i)
  show ?case
  proof (cases "i < int (length data) - 8")
    case False
    then show ?thesis
      by (subst jpeg_scan.simps, subst stop_at.simps) simp
  next
    case True
    with "1.prems" have rd: "\<And>k. 0 \<le> k \<Longrightarrow> k \<le> 8 \<Longrightarrow> byte_at data (i + k) = Inr (data ! nat (i + k))"
      by (intro byte_at_in) auto
    have rd0: "byte_at data i = Inr (data ! nat i)" using rd [of 0] by simp
    show ?thesis
    proof (cases "data ! nat i = 0xFF \<and> \<not> is_sof (data ! nat (i + 1))")
      case False
      with True show ?thesis
        by (subst jpeg_scan.simps, subst stop_at.simps) (auto simp: rd rd0 Let_def)
    next
      case adv: True
      have nn: "0 \<le> i + (2 + shl8_or (data ! nat (i + 2)) (data ! nat (i + 3)))"
        using "1.prems" shl8_or_nonneg [of "data ! nat (i + 2)" "data ! nat (i + 3)"] by linarith
      have "jpeg_scan data i = jpeg_scan data (i + (2 + shl8_or (data ! nat (i + 2)) (data ! nat (i + 3))))"
        using True adv by (subst jpeg_scan.simps) (simp add: rd rd0)
      moreover have "stop_at data i = stop_at data (i + (2 + shl8_or (data ! nat (i + 2)) (data ! nat (i + 3))))"
        using True adv by (subst stop_at.simps) simp
      ultimately show ?thesis
        using "1.IH" [OF _ nn] True adv by simp
    qed
  qed
qed

lemma jpeg_dimensions_stop:
  "jpeg_dimensions data =
     (if stop_at data 2 < int (length data) - 8 \<and> data ! nat (stop_at data 2) = 0xFF
      then Inr (shl8_or (data ! nat (stop_at data 2 + 7)) (data ! nat (stop_at data 2 + 8)),
                shl8_or (data ! nat (stop_at data 2 + 5)) (data ! nat (stop_at data 2 + 6)))
      else Inl (ValueError parse_msg))"
  using jpeg_scan_stop [of 2 data] by (simp add: jpeg_dimensions_def Let_def)

lemma shl8_or_le: "shl8_or hi lo \<le> 65535"
proof -
  have "uint hi < 256" "uint lo < 256"
    using uint_lt2p [of hi] uint_lt2p [of lo] by simp_all
  then show ?thesis by (simp add: shl8_or_eq)
qed

lemma stop_at_truncated_sof: "stop_at truncated_sof 2 = 2"
  by (subst stop_at.simps) (simp add: truncated_sof_def)

lemma stop_at_zero_frame: "stop_at zero_frame 2 = 2"
  by (subst stop_at.simps) (simp add: zero_frame_def is_sof_def)

lemma stop_at_minimal_frame: "stop_at minimal_frame 2 = 2"
  by (subst stop_at.simps) (simp add: minimal_frame_def is_sof_def)

lemma shl8_or_numeral: "shl8_or 0 0x64 = 100" "shl8_or 0 0x32 = 50" "shl8_or 0 0 = 0"
  by (simp_all add: shl8_or_eq)

lemma jpeg_dimensions_minimal_frame: "jpeg_dimensions minimal_frame = Inr (100, 50)"
  by (simp add: jpeg_dimensions_stop stop_at_minimal_frame)
     (simp add: minimal_frame_def shl8_or_numeral)

text \<open>
  C7 as stated: the parser fails exactly when the byte at the cursor is not \<open>0xFF\<close> or
  the cursor has run past the end of the buffer. On \<open>truncated_sof\<close> the parser fails
  although the cursor stands at index 2 of 10 bytes, on a \<open>0xFF\<close> byte that is followed
  by a start-of-frame code.
\<close>

theorem failure_condition_counterexample:
  "jpeg_dimensions truncated_sof = Inl (ValueError parse_msg)
   \<and> \<not> (truncated_sof ! nat (stop_at truncated_sof 2) \<noteq> 0xFF
        \<or> int (length truncated_sof) \<le> stop_at truncated_sof 2)"
  by (simp add: jpeg_dimensions_stop stop_at_truncated_sof) (simp add: truncated_sof_def)

text \<open>
  C7, amended: \<open>_jpeg_dimensions\<close> fails with \<open>ValueError\<close> exactly when the cursor at
  which its loop stops has fewer than nine bytes from it to the end of the buffer
  (\<open>len(data) - 8 \<le> i\<close>) or the byte at the cursor is not \<open>0xFF\<close>; it returns a pair
  exactly in the remaining case, so it never returns dimensions when that condition
  holds.
\<close>

theorem jpeg_dimensions_fails_iff:
  "(jpeg_dimensions data = Inl (ValueError parse_msg))
     = (int (length data) - 8 \<le> stop_at data 2 \<or> data ! nat (stop_at data 2) \<noteq> 0xFF)
   \<and> (\<exists>w h. jpeg_dimensions data = Inr (w, h))
     = (\<not> (int (length data) - 8 \<le> stop_at data 2 \<or> data ! nat (stop_at data 2) \<noteq> 0xFF))"
  by (auto simp: jpeg_dimensions_stop)

text \<open>
  C7, amended, on \<open>truncated_sof\<close>, where the guard fails at the first cursor and the
  parser fails, and on \<open>minimal_frame\<close>, where neither condition holds and it returns.
\<close>

theorem jpeg_dimensions_fails_iff_witness:
  "jpeg_dimensions truncated_sof = Inl (ValueError parse_msg)
   \<and> int (length truncated_sof) - 8 \<le> stop_at truncated_sof 2
   \<and> (\<exists>w h. jpeg_dimensions minimal_frame = Inr (w, h))
   \<and> stop_at minimal_frame 2 < int (length minimal_frame) - 8
   \<and> minimal_frame ! nat (stop_at minimal_frame 2) = 0xFF"
proof -
  have a: "int (length truncated_sof) - 8 \<le> stop_at truncated_sof 2"
    by (simp add: stop_at_truncated_sof) (simp add: truncated_sof_def)
  have b: "stop_at minimal_frame 2 < int (length minimal_frame) - 8"
    "minimal_frame ! nat (stop_at minimal_frame 2) = 0xFF"
    by (simp_all add: stop_at_minimal_frame) (simp_all add: minimal_frame_def)
  show ?thesis
    using a b jpeg_dimensions_fails_iff [of truncated_sof] jpeg_dimensions_fails_iff [of minimal_frame]
    by simp
qed

text \<open>
  C8 as stated: every returned pair is a pair of positive integers. The stream
  \<open>zero_frame\<close> is accepted with the pair \<open>(0, 0)\<close>.
\<close>

theorem zero_dimensions_counterexample:
  "jpeg_dimensions zero_frame = Inr (0, 0)"
  by (simp add: jpeg_dimensions_stop stop_at_zero_frame) (simp add: zero_frame_def shl8_or_numeral)

text \<open>
  C8, amended: whenever \<open>_jpeg_dimensions\<close> returns, the width and the height are
  integers from 0 to 65535.
\<close>

theorem jpeg_dimensions_range:
  "jpeg_dimensions data = Inr (w, h) \<Longrightarrow> 0 \<le> w \<and> w \<le> 65535 \<and> 0 \<le> h \<and> h \<le> 65535"
  by (auto simp: jpeg_dimensions_stop shl8_or_nonneg shl8_or_le split: if_splits)

text \<open>
  C8, amended, on \<open>minimal_frame\<close>.
\<close>

theorem jpeg_dimensions_range_witness:
  "jpeg_dimensions minimal_frame = Inr (100, 50)
   \<and> (0::int) \<le> 100 \<and> (100::int) \<le> 65535 \<and> (0::int) \<le> 50 \<and> (50::int) \<le> 65535"
  using jpeg_dimensions_range [OF jpeg_dimensions_minimal_frame] jpeg_dimensions_minimal_frame
  by simp

text \<open>
  C10: for every byte sequence \<open>_jpeg_dimensions\<close> never fails with an out-of-range
  access: it returns a pair or raises its \<open>ValueError\<close>; under the loop guard
  \<open>i < len(data) - 8\<close> every read at the offsets \<open>i\<close> to \<open>i + 8\<close> of a cursor that
  is not negative is inside the buffer.
\<close>

theorem jpeg_dimensions_in_bounds:
  "jpeg_dimensions data \<noteq> Inl IndexError
   \<and> ((\<exists>w h. jpeg_dimensions data = Inr (w, h)) \<or> jpeg_dimensions data = Inl (ValueError parse_msg))
   \<and> (\<forall>i k. 0 \<le> i \<and> i < int (length data) - 8 \<and> 0 \<le> k \<and> k \<le> 8
          \<longrightarrow> byte_at data (i + k) = Inr (data ! nat (i + k)))"
  by (auto simp: jpeg_dimensions_stop intro!: byte_at_in)

text \<open>
  C10 on \<open>minimal_frame\<close>, whose last read is at index 10 of 11 bytes, and on the
  empty byte sequence.
\<close>

theorem jpeg_dimensions_in_bounds_witness:
  "jpeg_dimensions minimal_frame \<noteq> Inl IndexError
   \<and> byte_at minimal_frame (2 + 8) = Inr (minimal_frame ! nat (2 + 8))
   \<and> jpeg_dimensions [] = Inl (ValueError parse_msg)"
proof -
  have "(0::int) \<le> 2 \<and> 2 < int (length minimal_frame) - 8 \<and> (0::int) \<le> 8 \<and> (8::int) \<le> 8"
    by (simp add: minimal_frame_def)
  moreover have "\<not> (\<exists>w h. jpeg_dimensions [] = Inr (w, h))"
    by (subst jpeg_dimensions_def, subst jpeg_scan.simps) simp
  ultimately show ?thesis
    using jpeg_dimensions_in_bounds [of minimal_frame] jpeg_dimensions_in_bounds [of "[]"]
    by blast
qed

section \<open>The assembler: the object table and the buffer\<close>

lemma buf_add_obj: "buf (add_obj num data st) = buf st @ object_bytes num data"
  by (simp add: add_obj_def object_bytes_def)

lemma map_of_add_obj:
  "map_of (offsets (add_obj num data st)) = (map_of (offsets st))(num \<mapsto> length (buf st))"
  by (simp add: add_obj_def update_conv')

lemma keys_add_obj:
  "fst ` set (offsets (add_obj num data st)) = insert num (fst ` set (offsets st))"
  by (simp add: add_obj_def dom_update)

lemma distinct_add_obj:
  "distinct (map fst (offsets st)) \<Longrightarrow> distinct (map fst (offsets (add_obj num data st)))"
  by (simp add: add_obj_def distinct_update)

lemma object_at_append: "object_at offs b num data \<Longrightarrow> object_at offs (b @ t) num data"
  by (auto simp: object_at_def split: option.splits intro: prefix_prefix)

lemma object_at_add_obj_new:
  "object_at (offsets (add_obj num data st)) (buf (add_obj num data st)) num data"
  by (simp add: object_at_def map_of_add_obj buf_add_obj)

lemma object_at_add_obj_keep:
  "k \<noteq> num \<Longrightarrow> object_at (offsets st) (buf st) k d
     \<Longrightarrow> object_at (offsets (add_obj num data st)) (buf (add_obj num data st)) k d"
  by (auto simp: object_at_def map_of_add_obj buf_add_obj split: option.splits intro: prefix_prefix)

lemma index_map_upt: "i < n \<Longrightarrow> index (map f [0..<n]) i = Inr (f i)"
  by (simp add: index_def)

lemma emit_page_eq:
  "i < n \<Longrightarrow>
   emit_page (map (\<lambda>i. 3 + 3 * i) [0..<n]) (map (\<lambda>i. 4 + 3 * i) [0..<n])
             (map (\<lambda>i. 5 + 3 * i) [0..<n]) i (jpeg, w, h) st
   = Inr (add_obj (5 + 3 * i) (page_dict (3 + 3 * i) (4 + 3 * i) w h)
           (add_obj (4 + 3 * i) (content_object w h)
             (add_obj (3 + 3 * i) (image_object jpeg w h) st)))"
  by (simp add: emit_page_def index_map_upt Let_def)

lemma emit_pages_spec:
  assumes "i + length ps = n"
    and "\<forall>k \<in> fst ` set (offsets st). k < 3 + 3 * i"
  shows "\<exists>st'. emit_pages (map (\<lambda>i. 3 + 3 * i) [0..<n]) (map (\<lambda>i. 4 + 3 * i) [0..<n])
                  (map (\<lambda>i. 5 + 3 * i) [0..<n]) i ps st = Inr st'
          \<and> fst ` set (offsets st') = fst ` set (offsets st) \<union> {3 + 3 * i ..< 3 + 3 * n}
          \<and> (distinct (map fst (offsets st)) \<longrightarrow> distinct (map fst (offsets st')))
          \<and> (\<exists>t. buf st' = buf st @ t)
          \<and> (\<forall>k d. k < 3 + 3 * i \<and> object_at (offsets st) (buf st) k d
                  \<longrightarrow> object_at (offsets st') (buf st') k d)
          \<and> (\<forall>j < length ps. page_objects_at (offsets st') (buf st') (i + j) (ps ! j))"
  using assms
proof (induction ps arbitrary: i st)
  case Nil
  then show ?case by simp
next
  case (Cons p ps)
  obtain jpeg w h where p: "p = (jpeg, w, h)" by (cases p)
  let ?I = "map (\<lambda>i. 3 + 3 * i) [0..<n]"
  let ?C = "map (\<lambda>i. 4 + 3 * i) [0..<n]"
  let ?P = "map (\<lambda>i. 5 + 3 * i) [0..<n]"
  define s1 where "s1 = add_obj (3 + 3 * i) (image_object jpeg w h) st"
  define s2 where "s2 = add_obj (4 + 3 * i) (content_object w h) s1"
  define s3 where "s3 = add_obj (5 + 3 * i) (page_dict (3 + 3 * i) (4 + 3 * i) w h) s2"
  have i: "i < n" using Cons.prems(1) by simp
  have step: "emit_page ?I ?C ?P i p st = Inr s3"
    unfolding p s3_def s2_def s1_def by (rule emit_page_eq [OF i])
  have keys3: "fst ` set (offsets s3) = fst ` set (offsets st) \<union> {3 + 3 * i, 4 + 3 * i, 5 + 3 * i}"
    by (auto simp: s3_def s2_def s1_def keys_add_obj)
  have small: "\<forall>k \<in> fst ` set (offsets s3). k < 3 + 3 * Suc i"
    using Cons.prems(2) unfolding keys3 by auto
  have len: "Suc i + length ps = n" using Cons.prems(1) by simp
  have buf3: "\<exists>t. buf s3 = buf st @ t"
    by (simp add: s3_def s2_def s1_def buf_add_obj)
  have dist3: "distinct (map fst (offsets st)) \<Longrightarrow> distinct (map fst (offsets s3))"
    by (simp add: s3_def s2_def s1_def distinct_add_obj)
  have keep3: "object_at (offsets s3) (buf s3) k d"
    if "k < 3 + 3 * i" and "object_at (offsets st) (buf st) k d" for k d
    using that unfolding s3_def s2_def s1_def
    by (intro object_at_add_obj_keep) simp_all
  have new3: "page_objects_at (offsets s3) (buf s3) i p"
    unfolding p page_objects_at_def prod.case s3_def
  proof (intro conjI)
    show "object_at (offsets (add_obj (5 + 3 * i) (page_dict (3 + 3 * i) (4 + 3 * i) w h) s2))
           (buf (add_obj (5 + 3 * i) (page_dict (3 + 3 * i) (4 + 3 * i) w h) s2))
           (3 + 3 * i) (image_object jpeg w h)"
      unfolding s2_def s1_def
      by (intro object_at_add_obj_keep object_at_add_obj_new) simp_all
    show "object_at (offsets (add_obj (5 + 3 * i) (page_dict (3 + 3 * i) (4 + 3 * i) w h) s2))
           (buf (add_obj (5 + 3 * i) (page_dict (3 + 3 * i) (4 + 3 * i) w h) s2))
           (4 + 3 * i) (content_object w h)"
      unfolding s2_def
      by (intro object_at_add_obj_keep object_at_add_obj_new) simp_all
    show "object_at (offsets (add_obj (5 + 3 * i) (page_dict (3 + 3 * i) (4 + 3 * i) w h) s2))
           (buf (add_obj (5 + 3 * i) (page_dict (3 + 3 * i) (4 + 3 * i) w h) s2))
           (5 + 3 * i) (page_dict (3 + 3 * i) (4 + 3 * i) w h)"
      by (rule object_at_add_obj_new)
  qed
  from Cons.IH [OF len small] obtain st' where
    run: "emit_pages ?I ?C ?P (Suc i) ps s3 = Inr st'"
    and keys: "fst ` set (offsets st') = fst ` set (offsets s3) \<union> {3 + 3 * Suc i ..< 3 + 3 * n}"
    and dist: "distinct (map fst (offsets s3)) \<longrightarrow> distinct (map fst (offsets st'))"
    and bufx: "\<exists>t. buf st' = buf s3 @ t"
    and keep: "\<forall>k d. k < 3 + 3 * Suc i \<and> object_at (offsets s3) (buf s3) k d
                  \<longrightarrow> object_at (offsets st') (buf st') k d"
    and rest: "\<forall>j < length ps. page_objects_at (offsets st') (buf st') (Suc i + j) (ps ! j)"
    by blast
  have c1: "emit_pages ?I ?C ?P i (p # ps) st = Inr st'"
    by (simp add: step run)
  have c2: "fst ` set (offsets st') = fst ` set (offsets st) \<union> {3 + 3 * i ..< 3 + 3 * n}"
    unfolding keys keys3 using i by auto
  have c3: "distinct (map fst (offsets st)) \<longrightarrow> distinct (map fst (offsets st'))"
    using dist dist3 by blast
  have c4: "\<exists>t. buf st' = buf st @ t"
    using buf3 bufx by auto
  have c5: "\<forall>k d. k < 3 + 3 * i \<and> object_at (offsets st) (buf st) k d
                  \<longrightarrow> object_at (offsets st') (buf st') k d"
  proof (intro allI impI)
    fix k d assume a: "k < 3 + 3 * i \<and> object_at (offsets st) (buf st) k d"
    then have "object_at (offsets s3) (buf s3) k d" using keep3 by blast
    moreover have "k < 3 + 3 * Suc i" using a by simp
    ultimately show "object_at (offsets st') (buf st') k d" using keep by blast
  qed
  have new': "page_objects_at (offsets st') (buf st') i p"
    using new3 keep unfolding p page_objects_at_def prod.case
    by (auto intro!: keep [rule_format])
  have c6: "\<forall>j < length (p # ps). page_objects_at (offsets st') (buf st') (i + j) ((p # ps) ! j)"
  proof (intro allI impI)
    fix j assume j: "j < length (p # ps)"
    show "page_objects_at (offsets st') (buf st') (i + j) ((p # ps) ! j)"
    proof (cases j)
      case 0
      then show ?thesis using new' by simp
    next
      case (Suc j')
      then show ?thesis using rest j by simp
    qed
  qed
  show ?case using c1 c2 c3 c4 c5 c6 by blast
qed

lemma str_nat_1: "str_nat 1 = ''1''"
  by code_simp

lemma str_nat_2: "str_nat 2 = ''2''"
  by code_simp

lemma str_nat_Suc_0: "str_nat (Suc 0) = ''1''"
  using str_nat_1 by simp

lemma build_objects_spec:
  "\<exists>st. build_objects pages = Inr st
     \<and> fst ` set (offsets st) = {1..2 + 3 * length pages}
     \<and> distinct (map fst (offsets st))
     \<and> prefix pdf_header (buf st)
     \<and> object_at (offsets st) (buf st) 1 catalog_dict
     \<and> object_at (offsets st) (buf st) 2
          (pages_dict (map (\<lambda>i. 5 + 3 * i) [0..<length pages]) (length pages))
     \<and> (\<forall>i < length pages. page_objects_at (offsets st) (buf st) i (pages ! i))"
proof -
  let ?n = "length pages"
  define s0 where "s0 = \<lparr>buf = pdf_header, offsets = []\<rparr>"
  define s1 where "s1 = add_obj 1 catalog_dict s0"
  define s2 where "s2 = add_obj 2 (pages_dict (map (\<lambda>i. 5 + 3 * i) [0..<?n]) ?n) s1"
  have keys2: "fst ` set (offsets s2) = {1, 2}"
    by (auto simp: s2_def s1_def s0_def keys_add_obj)
  have dist2: "distinct (map fst (offsets s2))"
    by (simp add: s2_def s1_def s0_def distinct_add_obj)
  have hdr2: "prefix pdf_header (buf s2)"
    by (simp add: s2_def s1_def s0_def buf_add_obj)
  have cat2: "object_at (offsets s2) (buf s2) 1 catalog_dict"
    unfolding s2_def s1_def
    by (intro object_at_add_obj_keep object_at_add_obj_new) simp
  have pgs2: "object_at (offsets s2) (buf s2) 2 (pages_dict (map (\<lambda>i. 5 + 3 * i) [0..<?n]) ?n)"
    unfolding s2_def by (rule object_at_add_obj_new)
  have small: "\<forall>k \<in> fst ` set (offsets s2). k < 3 + 3 * 0"
    unfolding keys2 by simp
  have "0 + length pages = ?n" by simp
  from emit_pages_spec [OF this small] obtain st where
    run: "emit_pages (map (\<lambda>i. 3 + 3 * i) [0..<?n]) (map (\<lambda>i. 4 + 3 * i) [0..<?n])
            (map (\<lambda>i. 5 + 3 * i) [0..<?n]) 0 pages s2 = Inr st"
    and keys: "fst ` set (offsets st) = fst ` set (offsets s2) \<union> {3 + 3 * 0 ..< 3 + 3 * ?n}"
    and dist: "distinct (map fst (offsets s2)) \<longrightarrow> distinct (map fst (offsets st))"
    and bufx: "\<exists>t. buf st = buf s2 @ t"
    and keep: "\<forall>k d. k < 3 + 3 * 0 \<and> object_at (offsets s2) (buf s2) k d
                  \<longrightarrow> object_at (offsets st) (buf st) k d"
    and pgs: "\<forall>j < length pages. page_objects_at (offsets st) (buf st) (0 + j) (pages ! j)"
    by blast
  have c1: "build_objects pages = Inr st"
    using run
    by (simp add: build_objects_def Let_def catalog_num_def pages_num_def s2_def s1_def s0_def)
  have c2: "fst ` set (offsets st) = {1..2 + 3 * ?n}"
    unfolding keys keys2 by auto
  have c3: "distinct (map fst (offsets st))" using dist dist2 by blast
  have c4: "prefix pdf_header (buf st)" using hdr2 bufx by (auto intro: prefix_prefix)
  have c5: "object_at (offsets st) (buf st) 1 catalog_dict"
    using keep cat2 by simp
  have c6: "object_at (offsets st) (buf st) 2 (pages_dict (map (\<lambda>i. 5 + 3 * i) [0..<?n]) ?n)"
    using keep pgs2 by simp
  have c7: "\<forall>i < length pages. page_objects_at (offsets st) (buf st) i (pages ! i)"
    using pgs by simp
  show ?thesis using c1 c2 c3 c4 c5 c6 c7 by blast
qed

lemma max_key_eq:
  assumes "fst ` set al = {1..m}" and "1 \<le> m"
  shows "max_key al = Inr m"
proof -
  have ne: "map fst al \<noteq> []" using assms by auto
  then obtain k ks where ks: "map fst al = k # ks" by (cases "map fst al") auto
  have "fold max ks k = Max (set (k # ks))" by (simp only: Max.set_eq_fold)
  also have "set (k # ks) = {1..m}" using assms(1) ks by (metis set_map)
  also have "Max {1..m} = m" using assms(2) by (intro Max_eqI) auto
  finally show ?thesis by (simp add: max_key_def ks)
qed

lemma finish_eq:
  assumes "fst ` set (offsets st) = {1..m}" and "1 \<le> m"
  shows "finish st =
     Inr (buf st
          @ encode ''xref\<newline>''
          @ encode (''0 '' @ str_nat (m + 1) @ ''\<newline>'')
          @ concat (encode ''0000000000 65535 f \<newline>'' # xref_lines st m)
          @ encode (''trailer\<newline><<\<newline>/Size '' @ str_nat (m + 1)
                    @ ''\<newline>/Root 1 0 R\<newline>>>\<newline>startxref\<newline>''
                    @ str_nat (length (buf st)) @ ''\<newline>%%EOF\<newline>''))"
  by (simp add: finish_def Let_def max_key_eq [OF assms] catalog_num_def str_nat_Suc_0 encode_def)

lemma build_jpeg_pdf_shape:
  "\<exists>st. build_objects pages = Inr st
     \<and> fst ` set (offsets st) = {1..2 + 3 * length pages}
     \<and> distinct (map fst (offsets st))
     \<and> build_jpeg_pdf pages =
         Inr (buf st
              @ encode ''xref\<newline>''
              @ encode (''0 '' @ str_nat (3 * length pages + 3) @ ''\<newline>'')
              @ concat (encode ''0000000000 65535 f \<newline>'' # xref_lines st (3 * length pages + 2))
              @ encode (''trailer\<newline><<\<newline>/Size '' @ str_nat (3 * length pages + 3)
                        @ ''\<newline>/Root 1 0 R\<newline>>>\<newline>startxref\<newline>''
                        @ str_nat (length (buf st)) @ ''\<newline>%%EOF\<newline>''))
     \<and> prefix pdf_header (buf st)
     \<and> object_at (offsets st) (buf st) 1 catalog_dict
     \<and> object_at (offsets st) (buf st) 2
          (pages_dict (map (\<lambda>i. 5 + 3 * i) [0..<length pages]) (length pages))
     \<and> (\<forall>i < length pages. page_objects_at (offsets st) (buf st) i (pages ! i))"
proof -
  from build_objects_spec [of pages] obtain st where
    st: "build_objects pages = Inr st"
    and keys: "fst ` set (offsets st) = {1..2 + 3 * length pages}"
    and rest: "distinct (map fst (offsets st))" "prefix pdf_header (buf st)"
      "object_at (offsets st) (buf st) 1 catalog_dict"
      "object_at (offsets st) (buf st) 2
          (pages_dict (map (\<lambda>i. 5 + 3 * i) [0..<length pages]) (length pages))"
      "\<forall>i < length pages. page_objects_at (offsets st) (buf st) i (pages ! i)"
    by blast
  have m: "1 \<le> 2 + 3 * length pages" by simp
  have e2: "2 + 3 * length pages = 3 * length pages + 2" by simp
  have e1: "3 * length pages + 2 + 1 = 3 * length pages + 3" by simp
  have out: "build_jpeg_pdf pages =
         Inr (buf st
              @ encode ''xref\<newline>''
              @ encode (''0 '' @ str_nat (3 * length pages + 3) @ ''\<newline>'')
              @ concat (encode ''0000000000 65535 f \<newline>'' # xref_lines st (3 * length pages + 2))
              @ encode (''trailer\<newline><<\<newline>/Size '' @ str_nat (3 * length pages + 3)
                        @ ''\<newline>/Root 1 0 R\<newline>>>\<newline>startxref\<newline>''
                        @ str_nat (length (buf st)) @ ''\<newline>%%EOF\<newline>''))"
    unfolding build_jpeg_pdf_def st by (simp only: sum.case finish_eq [OF keys m] e2 e1)
  show ?thesis using st keys rest out by blast
qed

lemma length_xref_lines: "length (xref_lines st m) = m"
  by (simp add: xref_lines_def)

lemma nth_xref_lines:
  "1 \<le> num \<Longrightarrow> num \<le> m \<Longrightarrow> map_of (offsets st) num = Some off
     \<Longrightarrow> (hd_line # xref_lines st m) ! num = encode (fmt_010d off @ '' 00000 n \<newline>'')"
  by (cases num) (simp_all add: xref_lines_def del: upt_Suc)

lemma object_at_header:
  assumes "object_at offs b num d"
  shows "\<exists>off. map_of offs num = Some off
           \<and> prefix (encode (str_nat num @ '' 0 obj\<newline>'')) (drop off (b @ t))"
proof -
  from assms obtain off where off: "map_of offs num = Some off"
    and p: "prefix (object_bytes num d) (drop off b)"
    by (auto simp: object_at_def split: option.splits)
  have "prefix (encode (str_nat num @ '' 0 obj\<newline>'')) (object_bytes num d)"
    by (simp add: object_bytes_def)
  with p have "prefix (encode (str_nat num @ '' 0 obj\<newline>'')) (drop off b)"
    by (rule prefix_order.trans [rotated])
  then have "prefix (encode (str_nat num @ '' 0 obj\<newline>'')) (drop off (b @ t))"
    by (auto intro: prefix_prefix)
  with off show ?thesis by blast
qed

lemma every_number_recorded:
  assumes "object_at offs b 1 d1" and "object_at offs b 2 d2"
    and "\<forall>i < n. page_objects_at offs b i (ps ! i)"
    and "1 \<le> num" and "num \<le> 2 + 3 * n"
  shows "\<exists>d. object_at offs b num d"
proof -
  consider "num = 1" | "num = 2" | "3 \<le> num" using assms(4) by linarith
  then show ?thesis
  proof cases
    case 1 then show ?thesis using assms(1) by blast
  next
    case 2 then show ?thesis using assms(2) by blast
  next
    case 3
    define i where "i = (num - 3) div 3"
    have i: "i < n" using 3 assms(5) unfolding i_def by linarith
    have "num = 3 + 3 * i \<or> num = 4 + 3 * i \<or> num = 5 + 3 * i"
      using 3 unfolding i_def by presburger
    moreover have "page_objects_at offs b i (ps ! i)" using assms(3) i by blast
    ultimately show ?thesis
      by (cases "ps ! i") (auto simp: page_objects_at_def)
  qed
qed

lemma length_offsets:
  assumes "distinct (map fst al)" and "fst ` set al = {1..m}"
  shows "length al = m"
proof -
  have "length al = length (map fst al)" by simp
  also have "\<dots> = card (set (map fst al))" using assms(1) by (simp only: distinct_card)
  also have "\<dots> = m" using assms(2) by simp
  finally show ?thesis .
qed

text \<open>
  C2: for every list of \<open>n\<close> pages (the non-empty ones among them) the catalog is
  object 1, the page tree is object 2, and the page with index \<open>i\<close> has its image under
  \<open>3 + 3i\<close>, its content stream under \<open>4 + 3i\<close> and its page dictionary under \<open>5 + 3i\<close>,
  each standing in the returned buffer at the offset recorded for its number; the
  recorded numbers are exactly \<open>1, ..., 2 + 3n\<close>, one table entry each, and the
  trailer at the end of the buffer declares \<open>/Size 3n + 3\<close>.
\<close>

theorem layout_policy:
  "\<exists>st out. build_objects pages = Inr st \<and> build_jpeg_pdf pages = Inr out
     \<and> fst ` set (offsets st) = {1..2 + 3 * length pages}
     \<and> length (offsets st) = 2 + 3 * length pages
     \<and> object_at (offsets st) out 1 catalog_dict
     \<and> object_at (offsets st) out 2
          (pages_dict (map (\<lambda>i. 5 + 3 * i) [0..<length pages]) (length pages))
     \<and> (\<forall>i < length pages. case pages ! i of (jpeg, w, h) \<Rightarrow>
           object_at (offsets st) out (3 + 3 * i) (image_object jpeg w h)
           \<and> object_at (offsets st) out (4 + 3 * i) (content_object w h)
           \<and> object_at (offsets st) out (5 + 3 * i) (page_dict (3 + 3 * i) (4 + 3 * i) w h))
     \<and> suffix (encode (''trailer\<newline><<\<newline>/Size '' @ str_nat (3 * length pages + 3)
                        @ ''\<newline>/Root 1 0 R\<newline>>>\<newline>startxref\<newline>''
                        @ str_nat (length (buf st)) @ ''\<newline>%%EOF\<newline>'')) out"
proof -
  let ?n = "length pages"
  from build_jpeg_pdf_shape [of pages] obtain st where
    st: "build_objects pages = Inr st"
    and keys: "fst ` set (offsets st) = {1..2 + 3 * ?n}"
    and dist: "distinct (map fst (offsets st))"
    and out: "build_jpeg_pdf pages =
         Inr (buf st
              @ encode ''xref\<newline>''
              @ encode (''0 '' @ str_nat (3 * ?n + 3) @ ''\<newline>'')
              @ concat (encode ''0000000000 65535 f \<newline>'' # xref_lines st (3 * ?n + 2))
              @ encode (''trailer\<newline><<\<newline>/Size '' @ str_nat (3 * ?n + 3)
                        @ ''\<newline>/Root 1 0 R\<newline>>>\<newline>startxref\<newline>''
                        @ str_nat (length (buf st)) @ ''\<newline>%%EOF\<newline>''))"
    and cat: "object_at (offsets st) (buf st) 1 catalog_dict"
    and pgs: "object_at (offsets st) (buf st) 2 (pages_dict (map (\<lambda>i. 5 + 3 * i) [0..<?n]) ?n)"
    and each: "\<forall>i < ?n. page_objects_at (offsets st) (buf st) i (pages ! i)"
    by blast
  define rest where "rest = encode ''xref\<newline>''
              @ encode (''0 '' @ str_nat (3 * ?n + 3) @ ''\<newline>'')
              @ concat (encode ''0000000000 65535 f \<newline>'' # xref_lines st (3 * ?n + 2))
              @ encode (''trailer\<newline><<\<newline>/Size '' @ str_nat (3 * ?n + 3)
                        @ ''\<newline>/Root 1 0 R\<newline>>>\<newline>startxref\<newline>''
                        @ str_nat (length (buf st)) @ ''\<newline>%%EOF\<newline>'')"
  have out': "build_jpeg_pdf pages = Inr (buf st @ rest)"
    unfolding out rest_def by simp
  have c4: "length (offsets st) = 2 + 3 * ?n" by (rule length_offsets [OF dist keys])
  have c5: "object_at (offsets st) (buf st @ rest) 1 catalog_dict"
    using cat by (rule object_at_append)
  have c6: "object_at (offsets st) (buf st @ rest) 2 (pages_dict (map (\<lambda>i. 5 + 3 * i) [0..<?n]) ?n)"
    using pgs by (rule object_at_append)
  have c7: "\<forall>i < ?n. case pages ! i of (jpeg, w, h) \<Rightarrow>
           object_at (offsets st) (buf st @ rest) (3 + 3 * i) (image_object jpeg w h)
           \<and> object_at (offsets st) (buf st @ rest) (4 + 3 * i) (content_object w h)
           \<and> object_at (offsets st) (buf st @ rest) (5 + 3 * i) (page_dict (3 + 3 * i) (4 + 3 * i) w h)"
  proof (intro allI impI)
    fix i assume "i < ?n"
    with each have "page_objects_at (offsets st) (buf st) i (pages ! i)" by blast
    then show "case pages ! i of (jpeg, w, h) \<Rightarrow>
           object_at (offsets st) (buf st @ rest) (3 + 3 * i) (image_object jpeg w h)
           \<and> object_at (offsets st) (buf st @ rest) (4 + 3 * i) (content_object w h)
           \<and> object_at (offsets st) (buf st @ rest) (5 + 3 * i) (page_dict (3 + 3 * i) (4 + 3 * i) w h)"
      by (cases "pages ! i") (auto simp: page_objects_at_def intro: object_at_append)
  qed
  have c8: "suffix (encode (''trailer\<newline><<\<newline>/Size '' @ str_nat (3 * ?n + 3)
                        @ ''\<newline>/Root 1 0 R\<newline>>>\<newline>startxref\<newline>''
                        @ str_nat (length (buf st)) @ ''\<newline>%%EOF\<newline>'')) (buf st @ rest)"
    unfolding rest_def by (intro suffix_appendI) simp
  show ?thesis using st out' keys c4 c5 c6 c7 c8 by blast
qed

lemma str_nat_12: "str_nat 12 = ''12''"
  by code_simp

text \<open>
  C2 on three pages: eleven objects, \<open>/Size 12\<close>, and the page with index 1 has the
  numbers 6, 7 and 8.
\<close>

theorem layout_policy_witness:
  "\<exists>st out. build_objects three_pages = Inr st \<and> build_jpeg_pdf three_pages = Inr out
     \<and> fst ` set (offsets st) = {1..11}
     \<and> length (offsets st) = 11
     \<and> object_at (offsets st) out 6 (image_object [] 20 30)
     \<and> object_at (offsets st) out 7 (content_object 20 30)
     \<and> object_at (offsets st) out 8 (page_dict 6 7 20 30)
     \<and> suffix (encode (''trailer\<newline><<\<newline>/Size 12\<newline>/Root 1 0 R\<newline>>>\<newline>startxref\<newline>''
                        @ str_nat (length (buf st)) @ ''\<newline>%%EOF\<newline>'')) out"
proof -
  have n: "length three_pages = 3" and p1: "three_pages ! 1 = ([], 20, 30)"
    by (simp_all add: three_pages_def)
  from layout_policy [of three_pages] obtain st out where
    a: "build_objects three_pages = Inr st" "build_jpeg_pdf three_pages = Inr out"
      "fst ` set (offsets st) = {1..2 + 3 * length three_pages}"
      "length (offsets st) = 2 + 3 * length three_pages"
    and b: "\<forall>i < length three_pages. case three_pages ! i of (jpeg, w, h) \<Rightarrow>
           object_at (offsets st) out (3 + 3 * i) (image_object jpeg w h)
           \<and> object_at (offsets st) out (4 + 3 * i) (content_object w h)
           \<and> object_at (offsets st) out (5 + 3 * i) (page_dict (3 + 3 * i) (4 + 3 * i) w h)"
    and c: "suffix (encode (''trailer\<newline><<\<newline>/Size '' @ str_nat (3 * length three_pages + 3)
                        @ ''\<newline>/Root 1 0 R\<newline>>>\<newline>startxref\<newline>''
                        @ str_nat (length (buf st)) @ ''\<newline>%%EOF\<newline>'')) out"
    by blast
  have "1 < length three_pages" by (simp add: n)
  then have "case three_pages ! 1 of (jpeg, w, h) \<Rightarrow>
           object_at (offsets st) out (3 + 3 * 1) (image_object jpeg w h)
           \<and> object_at (offsets st) out (4 + 3 * 1) (content_object w h)
           \<and> object_at (offsets st) out (5 + 3 * 1) (page_dict (3 + 3 * 1) (4 + 3 * 1) w h)"
    by (rule b [rule_format])
  then have b1: "object_at (offsets st) out 6 (image_object [] 20 30)"
    "object_at (offsets st) out 7 (content_object 20 30)"
    "object_at (offsets st) out 8 (page_dict 6 7 20 30)"
    unfolding p1 by simp_all
  have c': "suffix (encode (''trailer\<newline><<\<newline>/Size 12\<newline>/Root 1 0 R\<newline>>>\<newline>startxref\<newline>''
                        @ str_nat (length (buf st)) @ ''\<newline>%%EOF\<newline>'')) out"
    using c by (simp add: n str_nat_12)
  have a': "fst ` set (offsets st) = {1..11}" "length (offsets st) = 11"
    using a(3,4) by (simp_all add: n)
  show ?thesis
    by (intro exI [of _ st] exI [of _ out] conjI a(1,2) a' b1 c')
qed

text \<open>
  C5: for every page \<open>(jpeg, w, h)\<close> of the input, with index \<open>i\<close>, the buffer holds
  at the recorded offsets an image object that declares \<open>/Width w\<close> and \<open>/Height h\<close>, a
  content stream that is exactly \<open>q w 0 0 h 0 0 cm /Im Do Q\<close>, and a page dictionary
  whose \<open>/MediaBox\<close> is \<open>[0 0 w h]\<close> and which names that image and that content
  stream.
\<close>

theorem page_rectangle_is_image_rectangle:
  "\<exists>st out. build_objects pages = Inr st \<and> build_jpeg_pdf pages = Inr out
     \<and> (\<forall>i < length pages. case pages ! i of (jpeg, w, h) \<Rightarrow>
           object_at (offsets st) out (3 + 3 * i)
             (encode (''<<\<newline>/Type /XObject\<newline>/Subtype /Image\<newline>/Width '' @ str_int w
                      @ ''\<newline>/Height '' @ str_int h
                      @ ''\<newline>/ColorSpace /DeviceRGB\<newline>/BitsPerComponent 8\<newline>/Filter /DCTDecode\<newline>/Length ''
                      @ str_nat (length jpeg) @ ''\<newline>>>\<newline>stream\<newline>'')
              @ jpeg @ encode ''\<newline>endstream'')
           \<and> object_at (offsets st) out (4 + 3 * i)
             (encode (''<<\<newline>/Length ''
                      @ str_nat (length (''q '' @ str_int w @ '' 0 0 '' @ str_int h @ '' 0 0 cm /Im Do Q''))
                      @ ''\<newline>>>\<newline>stream\<newline>''
                      @ ''q '' @ str_int w @ '' 0 0 '' @ str_int h @ '' 0 0 cm /Im Do Q''
                      @ ''\<newline>endstream''))
           \<and> object_at (offsets st) out (5 + 3 * i)
             (encode (''<<\<newline>/Type /Page\<newline>/Parent 2 0 R\<newline>/MediaBox [0 0 '' @ str_int w @ '' '' @ str_int h
                      @ '']\<newline>/Resources <<\<newline>/XObject << /Im '' @ str_nat (3 + 3 * i)
                      @ '' 0 R >>\<newline>>>\<newline>/Contents '' @ str_nat (4 + 3 * i) @ '' 0 R\<newline>>>'')))"
proof -
  have img: "image_object jpeg w h =
      encode (''<<\<newline>/Type /XObject\<newline>/Subtype /Image\<newline>/Width '' @ str_int w
                      @ ''\<newline>/Height '' @ str_int h
                      @ ''\<newline>/ColorSpace /DeviceRGB\<newline>/BitsPerComponent 8\<newline>/Filter /DCTDecode\<newline>/Length ''
                      @ str_nat (length jpeg) @ ''\<newline>>>\<newline>stream\<newline>'')
              @ jpeg @ encode ''\<newline>endstream''" for jpeg w h
    by (simp add: image_object_def img_hdr_def)
  have con: "content_object w h =
      encode (''<<\<newline>/Length ''
                      @ str_nat (length (''q '' @ str_int w @ '' 0 0 '' @ str_int h @ '' 0 0 cm /Im Do Q''))
                      @ ''\<newline>>>\<newline>stream\<newline>''
                      @ ''q '' @ str_int w @ '' 0 0 '' @ str_int h @ '' 0 0 cm /Im Do Q''
                      @ ''\<newline>endstream'')" for w h
    by (simp add: content_object_def cs_hdr_def content_def encode_def)
  have pag: "page_dict a b w h =
      encode (''<<\<newline>/Type /Page\<newline>/Parent 2 0 R\<newline>/MediaBox [0 0 '' @ str_int w @ '' '' @ str_int h
                      @ '']\<newline>/Resources <<\<newline>/XObject << /Im '' @ str_nat a
                      @ '' 0 R >>\<newline>>>\<newline>/Contents '' @ str_nat b @ '' 0 R\<newline>>>'')" for a b w h
    by (simp add: page_dict_def pages_num_def str_nat_2)
  from build_jpeg_pdf_shape [of pages] obtain st rest where
    st: "build_objects pages = Inr st"
    and out: "build_jpeg_pdf pages = Inr (buf st @ rest)"
    and each: "\<forall>i < length pages. page_objects_at (offsets st) (buf st) i (pages ! i)"
    by blast
  have each': "\<forall>i < length pages. case pages ! i of (jpeg, w, h) \<Rightarrow>
           object_at (offsets st) (buf st @ rest) (3 + 3 * i) (image_object jpeg w h)
           \<and> object_at (offsets st) (buf st @ rest) (4 + 3 * i) (content_object w h)
           \<and> object_at (offsets st) (buf st @ rest) (5 + 3 * i) (page_dict (3 + 3 * i) (4 + 3 * i) w h)"
  proof (intro allI impI)
    fix i assume "i < length pages"
    with each have "page_objects_at (offsets st) (buf st) i (pages ! i)" by blast
    then show "case pages ! i of (jpeg, w, h) \<Rightarrow>
           object_at (offsets st) (buf st @ rest) (3 + 3 * i) (image_object jpeg w h)
           \<and> object_at (offsets st) (buf st @ rest) (4 + 3 * i) (content_object w h)
           \<and> object_at (offsets st) (buf st @ rest) (5 + 3 * i) (page_dict (3 + 3 * i) (4 + 3 * i) w h)"
      by (cases "pages ! i") (auto simp: page_objects_at_def intro: object_at_append)
  qed
  show ?thesis
    by (intro exI [of _ st] exI [of _ "buf st @ rest"] conjI st out each' [unfolded img con pag])
qed

lemma str_decimals:
  "str_nat 0 = ''0''" "str_nat 6 = ''6''" "str_nat 7 = ''7''" "str_nat 8 = ''8''"
  "str_int 20 = ''20''" "str_int 30 = ''30''"
  "str_nat (length (''q 20 0 0 30 0 0 cm /Im Do Q'')) = ''27''"
  by code_simp+

text \<open>
  C5 on the second of three pages, which is 20 by 30.
\<close>

theorem page_rectangle_is_image_rectangle_witness:
  "\<exists>st out. build_objects three_pages = Inr st \<and> build_jpeg_pdf three_pages = Inr out
     \<and> object_at (offsets st) out 6
          (encode (''<<\<newline>/Type /XObject\<newline>/Subtype /Image\<newline>/Width 20\<newline>/Height 30''
                   @ ''\<newline>/ColorSpace /DeviceRGB\<newline>/BitsPerComponent 8\<newline>/Filter /DCTDecode''
                   @ ''\<newline>/Length 0\<newline>>>\<newline>stream\<newline>'')
           @ [] @ encode ''\<newline>endstream'')
     \<and> object_at (offsets st) out 7
          (encode (''<<\<newline>/Length 27\<newline>>>\<newline>stream\<newline>''
                   @ ''q 20 0 0 30 0 0 cm /Im Do Q'' @ ''\<newline>endstream''))
     \<and> object_at (offsets st) out 8
          (encode (''<<\<newline>/Type /Page\<newline>/Parent 2 0 R\<newline>/MediaBox [0 0 20 30]''
                   @ ''\<newline>/Resources <<\<newline>/XObject << /Im 6 0 R >>\<newline>>>''
                   @ ''\<newline>/Contents 7 0 R\<newline>>>''))"
proof -
  have n: "1 < length three_pages" and p1: "three_pages ! 1 = ([], 20, 30)"
    by (simp_all add: three_pages_def)
  from page_rectangle_is_image_rectangle [of three_pages] obtain st out where
    a: "build_objects three_pages = Inr st" "build_jpeg_pdf three_pages = Inr out"
    and b: "\<forall>i < length three_pages. case three_pages ! i of (jpeg, w, h) \<Rightarrow>
           object_at (offsets st) out (3 + 3 * i)
             (encode (''<<\<newline>/Type /XObject\<newline>/Subtype /Image\<newline>/Width '' @ str_int w
                      @ ''\<newline>/Height '' @ str_int h
                      @ ''\<newline>/ColorSpace /DeviceRGB\<newline>/BitsPerComponent 8\<newline>/Filter /DCTDecode\<newline>/Length ''
                      @ str_nat (length jpeg) @ ''\<newline>>>\<newline>stream\<newline>'')
              @ jpeg @ encode ''\<newline>endstream'')
           \<and> object_at (offsets st) out (4 + 3 * i)
             (encode (''<<\<newline>/Length ''
                      @ str_nat (length (''q '' @ str_int w @ '' 0 0 '' @ str_int h @ '' 0 0 cm /Im Do Q''))
                      @ ''\<newline>>>\<newline>stream\<newline>''
                      @ ''q '' @ str_int w @ '' 0 0 '' @ str_int h @ '' 0 0 cm /Im Do Q''
                      @ ''\<newline>endstream''))
           \<and> object_at (offsets st) out (5 + 3 * i)
             (encode (''<<\<newline>/Type /Page\<newline>/Parent 2 0 R\<newline>/MediaBox [0 0 '' @ str_int w @ '' '' @ str_int h
                      @ '']\<newline>/Resources <<\<newline>/XObject << /Im '' @ str_nat (3 + 3 * i)
                      @ '' 0 R >>\<newline>>>\<newline>/Contents '' @ str_nat (4 + 3 * i) @ '' 0 R\<newline>>>''))"
    by blast
  have e: "3 + 3 * (1::nat) = 6" "4 + 3 * (1::nat) = 7" "5 + 3 * (1::nat) = 8" by simp_all
  note b1 = b [rule_format, OF n, unfolded p1 prod.case e list.size str_decimals]
  have q: "str_nat (length (''q '' @ ''20'' @ '' 0 0 '' @ ''30'' @ '' 0 0 cm /Im Do Q'')) = ''27''"
    using str_decimals(7) by simp
  show ?thesis
    apply (intro exI [of _ st] exI [of _ out] conjI a)
    using b1 unfolding q by simp_all
qed

text \<open>
  C3: for every input the buffer ends with the keyword \<open>xref\<close>, the line
  \<open>0 size\<close>, the lines of the cross-reference table and the trailer, where
  \<open>size = 3n + 3\<close> is the declared \<open>/Size\<close>. The table has exactly \<open>size\<close> lines, in the
  order of the numbers: line 0 is the head of the free list, and line \<open>num\<close>, for each
  \<open>num\<close> from 1 to \<open>size - 1\<close>, is the offset recorded for \<open>num\<close> in the object
  table, zero-padded to ten digits, where the object \<open>num\<close> begins in the buffer. The numbers recorded in
  the table are exactly \<open>1, ..., size - 1\<close>: none is missing and none is left out.
\<close>

theorem xref_table_entries:
  "\<exists>st out. build_objects pages = Inr st \<and> build_jpeg_pdf pages = Inr out
     \<and> out = buf st
             @ encode ''xref\<newline>''
             @ encode (''0 '' @ str_nat (3 * length pages + 3) @ ''\<newline>'')
             @ concat (encode ''0000000000 65535 f \<newline>'' # xref_lines st (3 * length pages + 2))
             @ encode (''trailer\<newline><<\<newline>/Size '' @ str_nat (3 * length pages + 3)
                       @ ''\<newline>/Root 1 0 R\<newline>>>\<newline>startxref\<newline>''
                       @ str_nat (length (buf st)) @ ''\<newline>%%EOF\<newline>'')
     \<and> length (encode ''0000000000 65535 f \<newline>'' # xref_lines st (3 * length pages + 2))
           = 3 * length pages + 3
     \<and> (encode ''0000000000 65535 f \<newline>'' # xref_lines st (3 * length pages + 2)) ! 0
           = encode ''0000000000 65535 f \<newline>''
     \<and> fst ` set (offsets st) = {1..3 * length pages + 2}
     \<and> (\<forall>num. 1 \<le> num \<and> num \<le> 3 * length pages + 2 \<longrightarrow>
           (\<exists>off. map_of (offsets st) num = Some off
              \<and> (encode ''0000000000 65535 f \<newline>'' # xref_lines st (3 * length pages + 2)) ! num
                    = encode (fmt_010d off @ '' 00000 n \<newline>'')
              \<and> prefix (encode (str_nat num @ '' 0 obj\<newline>'')) (drop off out)))"
proof -
  let ?n = "length pages"
  from build_jpeg_pdf_shape [of pages] obtain st where
    st: "build_objects pages = Inr st"
    and keys: "fst ` set (offsets st) = {1..2 + 3 * ?n}"
    and out: "build_jpeg_pdf pages =
         Inr (buf st
              @ encode ''xref\<newline>''
              @ encode (''0 '' @ str_nat (3 * ?n + 3) @ ''\<newline>'')
              @ concat (encode ''0000000000 65535 f \<newline>'' # xref_lines st (3 * ?n + 2))
              @ encode (''trailer\<newline><<\<newline>/Size '' @ str_nat (3 * ?n + 3)
                        @ ''\<newline>/Root 1 0 R\<newline>>>\<newline>startxref\<newline>''
                        @ str_nat (length (buf st)) @ ''\<newline>%%EOF\<newline>''))"
    and cat: "object_at (offsets st) (buf st) 1 catalog_dict"
    and pgs: "object_at (offsets st) (buf st) 2 (pages_dict (map (\<lambda>i. 5 + 3 * i) [0..<?n]) ?n)"
    and each: "\<forall>i < ?n. page_objects_at (offsets st) (buf st) i (pages ! i)"
    by blast
  define rest where "rest = encode ''xref\<newline>''
              @ encode (''0 '' @ str_nat (3 * ?n + 3) @ ''\<newline>'')
              @ concat (encode ''0000000000 65535 f \<newline>'' # xref_lines st (3 * ?n + 2))
              @ encode (''trailer\<newline><<\<newline>/Size '' @ str_nat (3 * ?n + 3)
                        @ ''\<newline>/Root 1 0 R\<newline>>>\<newline>startxref\<newline>''
                        @ str_nat (length (buf st)) @ ''\<newline>%%EOF\<newline>'')"
  define entries where
    "entries = encode ''0000000000 65535 f \<newline>'' # xref_lines st (3 * ?n + 2)"
  have c2: "build_jpeg_pdf pages = Inr (buf st @ rest)"
    unfolding out rest_def by simp
  have c3: "buf st @ rest = buf st
             @ encode ''xref\<newline>''
             @ encode (''0 '' @ str_nat (3 * ?n + 3) @ ''\<newline>'')
             @ concat entries
             @ encode (''trailer\<newline><<\<newline>/Size '' @ str_nat (3 * ?n + 3)
                       @ ''\<newline>/Root 1 0 R\<newline>>>\<newline>startxref\<newline>''
                       @ str_nat (length (buf st)) @ ''\<newline>%%EOF\<newline>'')"
    unfolding rest_def entries_def by simp
  have c4: "length entries = 3 * ?n + 3"
    by (simp add: entries_def length_xref_lines)
  have c5: "entries ! 0 = encode ''0000000000 65535 f \<newline>''"
    by (simp add: entries_def)
  have c6: "fst ` set (offsets st) = {1..3 * ?n + 2}"
    using keys by (simp add: add.commute)
  have c7: "\<forall>num. 1 \<le> num \<and> num \<le> 3 * ?n + 2 \<longrightarrow>
           (\<exists>off. map_of (offsets st) num = Some off
              \<and> entries ! num = encode (fmt_010d off @ '' 00000 n \<newline>'')
              \<and> prefix (encode (str_nat num @ '' 0 obj\<newline>'')) (drop off (buf st @ rest)))"
  proof (intro allI impI)
    fix num assume num: "1 \<le> num \<and> num \<le> 3 * ?n + 2"
    then have "\<exists>d. object_at (offsets st) (buf st) num d"
      by (intro every_number_recorded [OF cat pgs each]) simp_all
    then obtain d where "object_at (offsets st) (buf st) num d" ..
    from object_at_header [OF this, of rest] obtain off where
      off: "map_of (offsets st) num = Some off"
      and hd: "prefix (encode (str_nat num @ '' 0 obj\<newline>'')) (drop off (buf st @ rest))"
      by blast
    have "entries ! num = encode (fmt_010d off @ '' 00000 n \<newline>'')"
      unfolding entries_def using num off by (intro nth_xref_lines) simp_all
    with off hd show "\<exists>off. map_of (offsets st) num = Some off
              \<and> entries ! num = encode (fmt_010d off @ '' 00000 n \<newline>'')
              \<and> prefix (encode (str_nat num @ '' 0 obj\<newline>'')) (drop off (buf st @ rest))"
      by blast
  qed
  show ?thesis
    by (intro exI [of _ st] exI [of _ "buf st @ rest"] conjI st c2
          c3 [unfolded entries_def] c4 [unfolded entries_def] c5 [unfolded entries_def] c6
          c7 [unfolded entries_def])
qed

text \<open>
  C3 on three pages: twelve lines, and line 8 is the offset of object 8.
\<close>

theorem xref_table_entries_witness:
  "\<exists>st out. build_objects three_pages = Inr st \<and> build_jpeg_pdf three_pages = Inr out
     \<and> length (encode ''0000000000 65535 f \<newline>'' # xref_lines st 11) = 12
     \<and> fst ` set (offsets st) = {1..11}
     \<and> (\<exists>off. map_of (offsets st) 8 = Some off
              \<and> (encode ''0000000000 65535 f \<newline>'' # xref_lines st 11) ! 8
                    = encode (fmt_010d off @ '' 00000 n \<newline>'')
              \<and> prefix (encode ''8 0 obj\<newline>'') (drop off out))"
proof -
  have n: "3 * length three_pages + 2 = 11" "3 * length three_pages + 3 = 12"
    by (simp_all add: three_pages_def)
  from xref_table_entries [of three_pages] obtain st out where
    a: "build_objects three_pages = Inr st" "build_jpeg_pdf three_pages = Inr out"
    and b: "length (encode ''0000000000 65535 f \<newline>'' # xref_lines st (3 * length three_pages + 2))
           = 3 * length three_pages + 3"
      "fst ` set (offsets st) = {1..3 * length three_pages + 2}"
    and c: "\<forall>num. 1 \<le> num \<and> num \<le> 3 * length three_pages + 2 \<longrightarrow>
           (\<exists>off. map_of (offsets st) num = Some off
              \<and> (encode ''0000000000 65535 f \<newline>'' # xref_lines st (3 * length three_pages + 2)) ! num
                    = encode (fmt_010d off @ '' 00000 n \<newline>'')
              \<and> prefix (encode (str_nat num @ '' 0 obj\<newline>'')) (drop off out))"
    by blast
  have "(1::nat) \<le> 8 \<and> 8 \<le> 3 * length three_pages + 2" by (simp add: three_pages_def)
  from c [rule_format, OF this] have c8: "\<exists>off. map_of (offsets st) 8 = Some off
              \<and> (encode ''0000000000 65535 f \<newline>'' # xref_lines st 11) ! 8
                    = encode (fmt_010d off @ '' 00000 n \<newline>'')
              \<and> prefix (encode ''8 0 obj\<newline>'') (drop off out)"
    unfolding n str_decimals by simp
  show ?thesis
    by (intro exI [of _ st] exI [of _ out] conjI a b [unfolded n] c8)
qed

text \<open>
  C4: for every input the returned buffer ends with \<open>startxref\<close>, a number \<open>x\<close> in
  decimal and the end-of-file marker, and the keyword \<open>xref\<close> begins at byte \<open>x\<close> of the
  buffer.
\<close>

theorem startxref_points_to_xref:
  "\<exists>out x. build_jpeg_pdf pages = Inr out
     \<and> x < length out
     \<and> prefix (encode ''xref\<newline>'') (drop x out)
     \<and> suffix (encode (''startxref\<newline>'' @ str_nat x @ ''\<newline>%%EOF\<newline>'')) out"
proof -
  let ?n = "length pages"
  from build_jpeg_pdf_shape [of pages] obtain st where
    out: "build_jpeg_pdf pages =
         Inr (buf st
              @ encode ''xref\<newline>''
              @ encode (''0 '' @ str_nat (3 * ?n + 3) @ ''\<newline>'')
              @ concat (encode ''0000000000 65535 f \<newline>'' # xref_lines st (3 * ?n + 2))
              @ encode (''trailer\<newline><<\<newline>/Size '' @ str_nat (3 * ?n + 3)
                        @ ''\<newline>/Root 1 0 R\<newline>>>\<newline>startxref\<newline>''
                        @ str_nat (length (buf st)) @ ''\<newline>%%EOF\<newline>''))"
    by blast
  define mid where "mid = encode (''0 '' @ str_nat (3 * ?n + 3) @ ''\<newline>'')
              @ concat (encode ''0000000000 65535 f \<newline>'' # xref_lines st (3 * ?n + 2))
              @ encode (''trailer\<newline><<\<newline>/Size '' @ str_nat (3 * ?n + 3)
                        @ ''\<newline>/Root 1 0 R\<newline>>>\<newline>'')"
  define ptr where
    "ptr = encode (''startxref\<newline>'' @ str_nat (length (buf st)) @ ''\<newline>%%EOF\<newline>'')"
  have c1: "build_jpeg_pdf pages = Inr (buf st @ encode ''xref\<newline>'' @ mid @ ptr)"
    unfolding out mid_def ptr_def by (simp add: encode_def)
  have c2: "length (buf st) < length (buf st @ encode ''xref\<newline>'' @ mid @ ptr)"
    by (simp add: encode_def)
  have c3: "prefix (encode ''xref\<newline>'') (drop (length (buf st)) (buf st @ encode ''xref\<newline>'' @ mid @ ptr))"
    by simp
  have c4: "suffix (encode (''startxref\<newline>'' @ str_nat (length (buf st)) @ ''\<newline>%%EOF\<newline>''))
              (buf st @ encode ''xref\<newline>'' @ mid @ ptr)"
    by (intro suffix_appendI) (simp add: ptr_def)
  show ?thesis
    by (intro exI [of _ "buf st @ encode ''xref\<newline>'' @ mid @ ptr"] exI [of _ "length (buf st)"]
          conjI c1 c2 c3 c4)
qed






end
